theory Spec2Isabelle
  imports Complex_Main
begin

section \<open>Character-level RNN notebook: alphabet, batching, prediction and sampling\<close>

text \<open>
  A shallow embedding of the notebook \<^verbatim>\<open>Character_Level_RNN_Exercise-cn.ipynb\<close>.
  A Python exception is the name of its class, and a computation that may raise returns
  \<open>exn + 'a\<close>, with \<open>Inl\<close> the exception. Characters are \<open>char\<close>, a string is a
  \<open>char list\<close>. Probabilities are rationals: the rounding of the 32-bit floats of the
  notebook is not modelled.
\<close>

type_synonym exn = string

subsection \<open>The alphabet: \<^verbatim>\<open>int2char\<close> and \<^verbatim>\<open>char2int\<close>\<close>

text \<open>
  A \<^verbatim>\<open>dict\<close> built from a sequence of key/value pairs: a later pair overwrites an
  earlier one with the same key.
\<close>

definition dict_of :: "('k \<times> 'v) list \<Rightarrow> ('k \<rightharpoonup> 'v)" where
  "dict_of kvs = foldl (\<lambda>m (k, v). m(k \<mapsto> v)) Map.empty kvs"

text \<open>\<^verbatim>\<open>enumerate(chars)\<close>: the pairs \<open>(0, chars[0]), (1, chars[1]), ...\<close>\<close>

definition enumerate_py :: "'a list \<Rightarrow> (nat \<times> 'a) list" where
  "enumerate_py xs = zip [0..<length xs] xs"

text \<open>\<^verbatim>\<open>int2char = dict(enumerate(chars))\<close>\<close>

definition int2char :: "char list \<Rightarrow> (nat \<rightharpoonup> char)" where
  "int2char cs = dict_of (enumerate_py cs)"

text \<open>
  \<^verbatim>\<open>char2int = {ch: ii for ii, ch in int2char.items()}\<close>; the items of \<^verbatim>\<open>int2char\<close>
  come in the order of their insertion, which is the order of \<^verbatim>\<open>enumerate(chars)\<close>
  (its keys are distinct).
\<close>

definition char2int :: "char list \<Rightarrow> (char \<rightharpoonup> nat)" where
  "char2int cs = dict_of (map (\<lambda>(ii, ch). (ch, ii)) (enumerate_py cs))"

text \<open>
  \<^verbatim>\<open>chars = tuple(set(text))\<close>: the distinct characters of the text, in an order that
  the hashes of the characters decide. \<open>is_tuple_of_set text cs\<close> says that \<open>cs\<close> is one
  of the tuples this expression can give.
\<close>

definition is_tuple_of_set :: "string \<Rightarrow> char list \<Rightarrow> bool" where
  "is_tuple_of_set text cs \<longleftrightarrow> distinct cs \<and> set cs = set text"

subsection \<open>Mini-batches: \<^verbatim>\<open>get_batches\<close>\<close>

text \<open>
  The notebook gives the skeleton of \<^verbatim>\<open>get_batches\<close>: three assignments, the loop
  \<^verbatim>\<open>for n in range(0, arr.shape[1], seq_length)\<close>, two assignments in its body and
  \<^verbatim>\<open>yield x, y\<close>. The right-hand sides of the five assignments are left blank for the
  student (the solution notebook is a separate file). The loop header and the yield are
  modelled from the notebook, the five blanks from the specification.

  A matrix is the list of its rows; the generator is the list of the pairs it yields.
\<close>

text \<open>\<^verbatim>\<open>range(0, stop, step)\<close> for a positive step: \<open>0, step, 2 * step, ...\<close> below \<open>stop\<close>.\<close>

definition py_range :: "nat \<Rightarrow> nat \<Rightarrow> nat list" where
  "py_range stop step = map (\<lambda>k. k * step) [0..<(stop + step - 1) div step]"

text \<open>\<^verbatim>\<open>arr.shape[1]\<close> of a matrix with at least one row.\<close>

definition shape1 :: "'a list list \<Rightarrow> nat" where
  "shape1 mat = (case mat of [] \<Rightarrow> 0 | row # _ \<Rightarrow> length row)"

text \<open>
  Modelled from the spec: the blank \<^verbatim>\<open>arr = \<close> under "Reshape into batch_size rows".
  The matrix of \<open>n_rows\<close> rows in row-major order: row \<open>i\<close> holds the elements
  \<open>[i * n_cols, (i + 1) * n_cols)\<close> of the sequence.
\<close>

definition reshape :: "'a list \<Rightarrow> nat \<Rightarrow> nat \<Rightarrow> 'a list list" where
  "reshape arr n_rows n_cols = map (\<lambda>i. take n_cols (drop (i * n_cols) arr)) [0..<n_rows]"

text \<open>
  Modelled from the spec: the blank \<^verbatim>\<open>x = \<close> under "The features". The window
  \<open>matrix[:, n : n + M]\<close>.
\<close>

definition window_x :: "'a list list \<Rightarrow> nat \<Rightarrow> nat \<Rightarrow> 'a list list" where
  "window_x mat n seq_length = map (\<lambda>row. take seq_length (drop n row)) mat"

text \<open>
  Modelled from the spec: the blank \<^verbatim>\<open>y = \<close> under "The targets, shifted by one".
  Columns \<open>0 .. M - 2\<close> are \<open>matrix[:, n + 1 : n + M]\<close>; the last column is
  \<open>matrix[:, n + M]\<close> if that column exists, and \<open>matrix[:, 0]\<close> otherwise.
\<close>

definition window_y :: "'a list list \<Rightarrow> nat \<Rightarrow> nat \<Rightarrow> 'a list list" where
  "window_y mat n seq_length =
     map (\<lambda>row. take (seq_length - 1) (drop (n + 1) row)
                 @ [if n + seq_length < length row then row ! (n + seq_length) else row ! 0]) mat"

text \<open>
  Modelled from the spec: the blanks \<^verbatim>\<open>n_batches = \<close> and \<^verbatim>\<open>arr = \<close> (the number of
  batches \<open>floor(L / (N * M))\<close> and the truncation to \<open>n_batches * N * M\<close> elements). The
  specification asks for \<open>N, M \<ge> 1\<close>; for a zero product the quotient does not exist
  and the model reports the error of Python's integer division. The statements are the
  notebook's: three assignments, the loop and the yield. The skeleton has no statement
  that could raise between them, and the notebook has no class
  \<^verbatim>\<open>InsufficientDataError\<close>: when \<open>n_batches\<close> is zero the assignments and the loop run
  as for any other value, on a matrix of \<open>N\<close> empty rows.
\<close>

definition get_batches ::
  "'a list \<Rightarrow> nat \<Rightarrow> nat \<Rightarrow> exn + ('a list list \<times> 'a list list) list" where
  "get_batches arr batch_size seq_length =
     (let batch_chars = batch_size * seq_length in
      if batch_chars = 0 then Inl ''ZeroDivisionError''
      else
        let n_batches = length arr div batch_chars;
            arr1 = take (n_batches * batch_chars) arr;
            mat = reshape arr1 batch_size (seq_length * n_batches)
        in Inr (map (\<lambda>n. (window_x mat n seq_length, window_y mat n seq_length))
                    (py_range (shape1 mat) seq_length)))"

subsection \<open>Arrays and the library calls of \<^verbatim>\<open>predict\<close>\<close>

text \<open>
  An array of NumPy or a tensor of PyTorch: its shape and its elements in row-major
  order. A zero-dimensional array has the shape \<open>[]\<close> and one element.
\<close>

datatype 'a ndarray = NDArray (shape: "nat list") (flat: "'a list")

definition ndim :: "'a ndarray \<Rightarrow> nat" where
  "ndim a = length (shape a)"

text \<open>\<^verbatim>\<open>a.squeeze()\<close> removes every axis of length one.\<close>

definition squeeze :: "'a ndarray \<Rightarrow> 'a ndarray" where
  "squeeze a = NDArray (filter (\<lambda>d. d \<noteq> 1) (shape a)) (flat a)"

definition arange :: "nat \<Rightarrow> nat ndarray" where
  "arange n = NDArray [n] [0..<n]"

text \<open>\<^verbatim>\<open>p.sum()\<close>\<close>

definition np_sum :: "rat ndarray \<Rightarrow> rat" where
  "np_sum a = sum_list (flat a)"

text \<open>
  \<^verbatim>\<open>p / p.sum()\<close>, elementwise. A division by a zero sum gives NaN or an infinity in
  floating point: \<open>None\<close> stands for such an element.
\<close>

definition np_divide :: "rat ndarray \<Rightarrow> rat \<Rightarrow> rat option ndarray" where
  "np_divide a s = NDArray (shape a) (map (\<lambda>x. if s = 0 then None else Some (x / s)) (flat a))"

text \<open>
  The pairs (value, index) of a row by descending value; equal values keep the order of
  their indices, the lower index first.
\<close>

definition ranked :: "rat list \<Rightarrow> (rat \<times> nat) list" where
  "ranked row = sort_key (\<lambda>(v, i). - v) (zip row [0..<length row])"

text \<open>
  \<^verbatim>\<open>p.topk(k)\<close> for a tensor \<open>p\<close> of one row (shape \<open>(1, V)\<close>): the \<open>k\<close> largest values of
  the row and their indices, both of shape \<open>(1, k)\<close>. PyTorch unpacks the Python
  integer \<open>k\<close> into a signed 64-bit integer, a \<^verbatim>\<open>ValueError\<close> when it does not fit; for
  a \<open>k\<close> that fits it raises a \<^verbatim>\<open>RuntimeError\<close> when \<open>k\<close> is negative or exceeds the
  length of the row. The length of a tensor fits 64 bits, so a \<open>k\<close> that does not fit is
  never within the range.
\<close>

definition topk :: "rat ndarray \<Rightarrow> int \<Rightarrow> exn + (rat ndarray \<times> nat ndarray)" where
  "topk p k =
     (let row = flat p in
      if k < 0 \<or> int (length row) < k then
        (if k < - (2 ^ 63) \<or> 2 ^ 63 \<le> k then Inl ''ValueError'' else Inl ''RuntimeError'')
      else
        let sel = take (nat k) (ranked row)
        in Inr (NDArray [1, nat k] (map fst sel), NDArray [1, nat k] (map snd sel)))"

text \<open>
  The global random generator of NumPy: the sequence of the uniform samples it will
  return. \<^verbatim>\<open>random_sample()\<close> takes the first and leaves the rest.
\<close>

type_synonym rng = "nat \<Rightarrow> rat"

definition random_sample :: "rng \<Rightarrow> rat \<times> rng" where
  "random_sample g = (g 0, \<lambda>n. g (Suc n))"

fun cumsum_from :: "rat \<Rightarrow> rat list \<Rightarrow> rat list" where
  "cumsum_from acc [] = []"
| "cumsum_from acc (x # xs) = (acc + x) # cumsum_from (acc + x) xs"

definition cumsum :: "rat list \<Rightarrow> rat list" where
  "cumsum xs = cumsum_from 0 xs"

text \<open>\<^verbatim>\<open>cdf.searchsorted(u, side='right')\<close> on an ascending \<open>cdf\<close>.\<close>

definition searchsorted_right :: "rat list \<Rightarrow> rat \<Rightarrow> nat" where
  "searchsorted_right cdf u = length (takeWhile (\<lambda>c. c \<le> u) cdf)"

text \<open>The tolerance of \<^verbatim>\<open>np.random.choice\<close> on the sum of 32-bit probabilities.\<close>

definition atol :: rat where
  "atol = 345 / 1000000"

text \<open>
  The population that \<^verbatim>\<open>np.random.choice(a, ...)\<close> draws from: \<open>range(n)\<close> for a
  zero-dimensional \<open>a\<close> holding the integer \<open>n > 0\<close>, the elements of a non-empty
  one-dimensional \<open>a\<close>, and a \<^verbatim>\<open>ValueError\<close> otherwise.
\<close>

definition population :: "nat ndarray \<Rightarrow> exn + nat list" where
  "population a =
     (if ndim a = 0 then
        (case flat a of
           [n] \<Rightarrow> if n = 0 then Inl ''ValueError'' else Inr [0..<n]
         | _ \<Rightarrow> Inl ''ValueError'')
      else if ndim a \<noteq> 1 then Inl ''ValueError''
      else if flat a = [] then Inl ''ValueError''
      else Inr (flat a))"

text \<open>
  \<^verbatim>\<open>np.random.choice(a, p=p)\<close>, one draw. After the checks on \<open>a\<close> it takes
  \<^verbatim>\<open>len(p)\<close>, a \<^verbatim>\<open>TypeError\<close> for a zero-dimensional \<open>p\<close>; it raises a
  \<^verbatim>\<open>ValueError\<close> when \<open>p\<close> is not one-dimensional, has not the size of the population,
  holds a NaN or a negative value, or does not sum to one within the tolerance. Then it
  draws a uniform sample \<open>u\<close> and returns the element at the position where \<open>u\<close> falls
  in the cumulative sums of \<open>p\<close>.
\<close>

definition np_random_choice ::
  "nat ndarray \<Rightarrow> rat option ndarray \<Rightarrow> rng \<Rightarrow> exn + (nat \<times> rng)" where
  "np_random_choice a p g =
     (case population a of
        Inl e \<Rightarrow> Inl e
      | Inr pop \<Rightarrow>
        if ndim p = 0 then Inl ''TypeError''
        else if ndim p \<noteq> 1 then Inl ''ValueError''
        else if length (flat p) \<noteq> length pop then Inl ''ValueError''
        else if None \<in> set (flat p) then Inl ''ValueError''
        else
          let pvals = map the (flat p) in
          if \<exists>x \<in> set pvals. x < 0 then Inl ''ValueError''
          else if atol < \<bar>sum_list pvals - 1\<bar> then Inl ''ValueError''
          else
            let cdf0 = cumsum pvals;
                cdf = map (\<lambda>c. c / last cdf0) cdf0;
                (u, g') = random_sample g;
                idx = searchsorted_right cdf u
            in if idx < length pop then Inr (pop ! idx, g') else Inl ''IndexError'')"

text \<open>
  \<^verbatim>\<open>one_hot_encode(arr, n_labels)\<close> for a two-dimensional \<open>arr\<close>: the assignment
  \<^verbatim>\<open>one_hot[np.arange(...), arr.flatten()] = 1.\<close> raises an \<^verbatim>\<open>IndexError\<close> for a label
  that is not below \<open>n_labels\<close>.
\<close>

definition one_hot_encode :: "nat list list \<Rightarrow> nat \<Rightarrow> exn + rat list list list" where
  "one_hot_encode arr n_labels =
     (if \<exists>row \<in> set arr. \<exists>v \<in> set row. n_labels \<le> v then Inl ''IndexError''
      else Inr (map (map (\<lambda>v. map (\<lambda>j. if j = v then 1 else 0) [0..<n_labels])) arr))"

subsection \<open>The network, \<^verbatim>\<open>predict\<close> and \<^verbatim>\<open>sample\<close>\<close>

text \<open>
  \<^verbatim>\<open>CharRNN\<close>: the tokens, from which \<^verbatim>\<open>__init__\<close> builds \<^verbatim>\<open>int2char\<close> and
  \<^verbatim>\<open>char2int\<close>, and the two methods the sampler calls. The layers and the body of
  \<^verbatim>\<open>forward\<close> are left to the student, so the network is a parameter: \<open>forward net x h\<close>
  stands for \<^verbatim>\<open>F.softmax(out, dim=1)\<close> of \<^verbatim>\<open>out, h = net(x, h)\<close>, the row of the
  probabilities of the next character (a tensor of shape \<open>(1, V)\<close> for one input
  character), with the new hidden state. The switches \<^verbatim>\<open>train_on_gpu\<close>, \<^verbatim>\<open>net.cuda()\<close>,
  \<^verbatim>\<open>net.cpu()\<close> and \<^verbatim>\<open>net.eval()\<close> change no value here and are left out.
\<close>

record 'h CharRNN =
  chars :: "char list"
  forward :: "rat list list list \<Rightarrow> 'h \<Rightarrow> rat list \<times> 'h"
  init_hidden :: "nat \<Rightarrow> 'h"

text \<open>
  \<^verbatim>\<open>predict(net, char, h=None, top_k=None)\<close>. The steps, in the order of the source:
  the lookup \<^verbatim>\<open>net.char2int[char]\<close> (a \<^verbatim>\<open>KeyError\<close> for an unknown character), the
  one-hot encoding, the iteration over \<open>h\<close> (a \<^verbatim>\<open>TypeError\<close> for \<^verbatim>\<open>None\<close>), the call of
  the network, the choice of the candidates, the squeeze of \<open>p\<close>, the random choice, and
  the lookup \<^verbatim>\<open>net.int2char[char]\<close>. It returns the character, the hidden state and the
  state of the random generator.
\<close>

definition predict ::
  "'h CharRNN \<Rightarrow> char \<Rightarrow> 'h option \<Rightarrow> int option \<Rightarrow> rng \<Rightarrow> exn + (char \<times> 'h \<times> rng)" where
  "predict net char h top_k g =
     (case char2int (chars net) char of
        None \<Rightarrow> Inl ''KeyError''
      | Some ci \<Rightarrow>
     (case one_hot_encode [[ci]] (length (chars net)) of
        Inl e \<Rightarrow> Inl e
      | Inr inputs \<Rightarrow>
     (case h of
        None \<Rightarrow> Inl ''TypeError''
      | Some h0 \<Rightarrow>
        let (out, h1) = forward net inputs h0;
            p = NDArray [1, length out] out
        in
     (case (case top_k of
              None \<Rightarrow> Inr (p, arange (length (chars net)))
            | Some k \<Rightarrow>
                (case topk p k of
                   Inl e \<Rightarrow> Inl e
                 | Inr (p', top_ch) \<Rightarrow> Inr (p', squeeze top_ch))) of
        Inl e \<Rightarrow> Inl e
      | Inr (p1, top_ch) \<Rightarrow>
        let p2 = squeeze p1 in
     (case np_random_choice top_ch (np_divide p2 (np_sum p2)) g of
        Inl e \<Rightarrow> Inl e
      | Inr (c, g') \<Rightarrow>
     (case int2char (chars net) c of
        None \<Rightarrow> Inl ''KeyError''
      | Some ch \<Rightarrow> Inr (ch, h1, g')))))))"

text \<open>
  The first loop of \<^verbatim>\<open>sample\<close>: \<^verbatim>\<open>for ch in prime: char, h = predict(net, ch, h, top_k)\<close>.
  The variable \<^verbatim>\<open>char\<close> is unbound (\<open>None\<close>) until the first iteration has assigned it.
\<close>

fun prime_loop ::
  "'h CharRNN \<Rightarrow> int option \<Rightarrow> string \<Rightarrow> char option \<times> 'h \<times> rng
     \<Rightarrow> exn + (char option \<times> 'h \<times> rng)" where
  "prime_loop net top_k [] st = Inr st"
| "prime_loop net top_k (ch # rest) (char, h, g) =
     (case predict net ch (Some h) top_k g of
        Inl e \<Rightarrow> Inl e
      | Inr (char', h', g') \<Rightarrow> prime_loop net top_k rest (Some char', h', g'))"

text \<open>
  The second loop: \<^verbatim>\<open>for ii in range(size): char, h = predict(net, chars[-1], h, top_k)\<close>
  followed by \<^verbatim>\<open>chars.append(char)\<close>.
\<close>

fun gen_loop ::
  "'h CharRNN \<Rightarrow> int option \<Rightarrow> nat \<Rightarrow> string \<times> 'h \<times> rng \<Rightarrow> exn + (string \<times> 'h \<times> rng)" where
  "gen_loop net top_k 0 st = Inr st"
| "gen_loop net top_k (Suc n) (cs, h, g) =
     (case predict net (last cs) (Some h) top_k g of
        Inl e \<Rightarrow> Inl e
      | Inr (char, h', g') \<Rightarrow> gen_loop net top_k n (cs @ [char], h', g'))"

text \<open>
  \<^verbatim>\<open>sample(net, size, prime, top_k)\<close>. After the first loop \<^verbatim>\<open>chars.append(char)\<close> reads
  \<^verbatim>\<open>char\<close>: an \<^verbatim>\<open>UnboundLocalError\<close> when the loop did not run. \<^verbatim>\<open>range(size)\<close> is empty
  for a negative size. The result is \<^verbatim>\<open>''.join(chars)\<close>, with the state of the random
  generator.
\<close>

definition sample ::
  "'h CharRNN \<Rightarrow> int \<Rightarrow> string \<Rightarrow> int option \<Rightarrow> rng \<Rightarrow> exn + (string \<times> rng)" where
  "sample net size' prime top_k g =
     (case prime_loop net top_k prime (None, init_hidden net 1, g) of
        Inl e \<Rightarrow> Inl e
      | Inr (char, h, g1) \<Rightarrow>
     (case char of
        None \<Rightarrow> Inl ''UnboundLocalError''
      | Some c \<Rightarrow>
     (case gen_loop net top_k (nat size') (prime @ [c], h, g1) of
        Inl e \<Rightarrow> Inl e
      | Inr (cs, h', g2) \<Rightarrow> Inr (cs, g2))))"

subsection \<open>Conditions on the parameters\<close>

text \<open>The input tensor that \<^verbatim>\<open>predict\<close> builds for the character of index \<open>ci\<close>.\<close>

definition one_hot_input :: "'h CharRNN \<Rightarrow> nat \<Rightarrow> rat list list list" where
  "one_hot_input net ci = [[map (\<lambda>j. if j = ci then 1 else 0) [0..<length (chars net)]]]"

text \<open>
  The network returns a probability distribution over its \<open>V\<close> tokens: \<open>V\<close> values, none
  negative, of sum one.
\<close>

definition wf_net :: "'h CharRNN \<Rightarrow> bool" where
  "wf_net net \<longleftrightarrow>
     (\<forall>x h. length (fst (forward net x h)) = length (chars net)
          \<and> (\<forall>q \<in> set (fst (forward net x h)). 0 \<le> q)
          \<and> sum_list (fst (forward net x h)) = 1)"

text \<open>The uniform samples lie in \<open>[0, 1)\<close>.\<close>

definition wf_rng :: "rng \<Rightarrow> bool" where
  "wf_rng g \<longleftrightarrow> (\<forall>n. 0 \<le> g n \<and> g n < 1)"

text \<open>
  The values of \<open>top_k\<close> for which \<^verbatim>\<open>predict\<close> returns a character: \<^verbatim>\<open>None\<close> with at least
  two tokens, or an integer from two to the number of tokens.
\<close>

definition valid_top_k :: "nat \<Rightarrow> int option \<Rightarrow> bool" where
  "valid_top_k V top_k = (case top_k of None \<Rightarrow> 2 \<le> V | Some k \<Rightarrow> 2 \<le> k \<and> k \<le> int V)"

text \<open>The probabilities \<open>vals\<close> divided by their sum.\<close>

definition renormalized :: "rat list \<Rightarrow> rat list" where
  "renormalized vals = map (\<lambda>x. x / sum_list vals) vals"

subsection \<open>A network and a generator for the examples\<close>

text \<open>
  Three tokens; whatever the input, the probabilities are \<open>1/6\<close>, \<open>1/2\<close>, \<open>1/3\<close>, and the
  hidden state counts the calls. The generator alternates between \<open>7/10\<close> and \<open>1/10\<close>.
\<close>

definition net3 :: "nat CharRNN" where
  "net3 = \<lparr>chars = ''abc'', forward = (\<lambda>x h. ([1/6, 1/2, 1/3], Suc h)), init_hidden = (\<lambda>b. 0)\<rparr>"

definition rng0 :: rng where
  "rng0 = (\<lambda>n. if even n then 7/10 else 1/10)"

lemmas eval_defs = sample_def predict_def char2int_def int2char_def dict_of_def enumerate_py_def
  one_hot_encode_def topk_def ranked_def squeeze_def arange_def np_sum_def np_divide_def
  np_random_choice_def population_def ndim_def cumsum_def searchsorted_right_def atol_def
  random_sample_def net3_def rng0_def Let_def upt_rec

lemmas batch_defs = get_batches_def reshape_def shape1_def window_x_def window_y_def
  py_range_def upt_rec Let_def

subsection \<open>Lemmas on the alphabet\<close>

lemma dict_of_snoc: "dict_of (kvs @ [(k, v)]) = (dict_of kvs)(k \<mapsto> v)"
  by (simp add: dict_of_def)

lemma enumerate_py_snoc: "enumerate_py (xs @ [x]) = enumerate_py xs @ [(length xs, x)]"
  by (simp add: enumerate_py_def)

lemma int2char_nth: "int2char cs i = (if i < length cs then Some (cs ! i) else None)"
proof (induction cs rule: rev_induct)
  case Nil
  show ?case by (simp add: int2char_def enumerate_py_def dict_of_def)
next
  case (snoc x xs)
  have "int2char (xs @ [x]) = (int2char xs)(length xs \<mapsto> x)"
    by (simp add: int2char_def enumerate_py_snoc dict_of_snoc)
  with snoc show ?case by (auto simp: nth_append)
qed

lemma char2int_snoc: "char2int (xs @ [x]) = (char2int xs)(x \<mapsto> length xs)"
  by (simp add: char2int_def enumerate_py_snoc dict_of_snoc)

lemma char2int_dom: "dom (char2int cs) = set cs"
proof (induction cs rule: rev_induct)
  case Nil
  show ?case by (simp add: char2int_def enumerate_py_def dict_of_def)
next
  case (snoc x xs)
  have "dom (char2int (xs @ [x])) = insert x (dom (char2int xs))"
    unfolding char2int_snoc by simp
  with snoc show ?case by simp
qed

lemma char2int_less: "char2int cs ch = Some i \<Longrightarrow> i < length cs"
proof (induction cs arbitrary: i rule: rev_induct)
  case Nil
  then show ?case by (simp add: char2int_def enumerate_py_def dict_of_def)
next
  case (snoc x xs)
  then show ?case by (auto simp: char2int_snoc less_Suc_eq split: if_splits)
qed

lemma char2int_None: "char \<notin> set cs \<Longrightarrow> char2int cs char = None"
  using char2int_dom [of cs] by (auto simp: dom_def)

lemma char2int_Some: "char \<in> set cs \<Longrightarrow> \<exists>ci < length cs. char2int cs char = Some ci"
  using char2int_dom [of cs] char2int_less [of cs char] by (auto simp: dom_def)

lemma char2int_nth:
  "distinct cs \<Longrightarrow> i < length cs \<Longrightarrow> char2int cs (cs ! i) = Some i"
proof (induction cs arbitrary: i rule: rev_induct)
  case Nil
  then show ?case by simp
next
  case (snoc x xs)
  show ?case
  proof (cases "i < length xs")
    case True
    with snoc.prems have "xs ! i \<noteq> x" by auto
    with True snoc show ?thesis by (simp add: char2int_snoc nth_append)
  next
    case False
    with snoc.prems have "i = length xs" by simp
    then show ?thesis by (simp add: char2int_snoc)
  qed
qed

subsection \<open>The alphabet is a bijection\<close>

text \<open>
  C8. For the alphabet built from a text (\<open>cs\<close> any tuple of the set of its characters,
  \<open>V\<close> its length): every character of the text has an index below \<open>V\<close> that \<open>int2char\<close>
  maps back to it, every index below \<open>V\<close> has a character of the text that \<open>char2int\<close>
  maps back to it, and \<open>char2int\<close> is a bijection between the characters of the text and
  the range \<open>[0, V)\<close>.
\<close>

theorem alphabet_bijection:
  assumes "is_tuple_of_set text cs"
  shows "(\<forall>ch \<in> set text. \<exists>i < length cs.
            char2int cs ch = Some i \<and> int2char cs i = Some ch)
       \<and> (\<forall>i < length cs. \<exists>ch \<in> set text.
            int2char cs i = Some ch \<and> char2int cs ch = Some i)
       \<and> dom (char2int cs) = set text
       \<and> dom (int2char cs) = {0..<length cs}
       \<and> length cs = card (set text)
       \<and> bij_betw (\<lambda>ch. the (char2int cs ch)) (set text) {0..<length cs}"
proof -
  from assms have d: "distinct cs" and s: "set cs = set text"
    by (simp_all add: is_tuple_of_set_def)
  have a: "\<forall>ch \<in> set text. \<exists>i < length cs.
            char2int cs ch = Some i \<and> int2char cs i = Some ch"
  proof
    fix ch assume "ch \<in> set text"
    with s have "ch \<in> set cs" by simp
    then obtain i where "i < length cs" "cs ! i = ch"
      by (auto simp: in_set_conv_nth)
    with d show "\<exists>i < length cs. char2int cs ch = Some i \<and> int2char cs i = Some ch"
      using char2int_nth [of cs i] by (auto simp: int2char_nth)
  qed
  have b: "\<forall>i < length cs. \<exists>ch \<in> set text.
            int2char cs i = Some ch \<and> char2int cs ch = Some i"
    using d s char2int_nth by (auto simp: int2char_nth)
  have c: "dom (int2char cs) = {0..<length cs}"
    by (auto simp: int2char_nth dom_def)
  have e: "length cs = card (set text)"
    using d s distinct_card by fastforce
  have "bij_betw (\<lambda>ch. the (char2int cs ch)) (set text) {0..<length cs}"
    unfolding bij_betw_def
  proof
    show "inj_on (\<lambda>ch. the (char2int cs ch)) (set text)"
    proof (rule inj_onI)
      fix x y assume "x \<in> set text" "y \<in> set text"
        and eq: "the (char2int cs x) = the (char2int cs y)"
      with a obtain i j where "char2int cs x = Some i" "int2char cs i = Some x"
        "char2int cs y = Some j" "int2char cs j = Some y" by blast
      with eq show "x = y" by simp
    qed
    show "(\<lambda>ch. the (char2int cs ch)) ` set text = {0..<length cs}"
    proof (rule set_eqI)
      fix i
      show "i \<in> (\<lambda>ch. the (char2int cs ch)) ` set text \<longleftrightarrow> i \<in> {0..<length cs}"
      proof
        assume "i \<in> (\<lambda>ch. the (char2int cs ch)) ` set text"
        then obtain ch where "ch \<in> set text" "i = the (char2int cs ch)" by blast
        with a show "i \<in> {0..<length cs}" by fastforce
      next
        assume "i \<in> {0..<length cs}"
        with b obtain ch where "ch \<in> set text" "char2int cs ch = Some i" by fastforce
        then show "i \<in> (\<lambda>ch. the (char2int cs ch)) ` set text" by force
      qed
    qed
  qed
  with a b c e s show ?thesis by (simp add: char2int_dom)
qed

theorem alphabet_bijection_witness:
  "is_tuple_of_set ''hello'' ''ohle''
   \<and> char2int ''ohle'' CHR ''l'' = Some 2 \<and> int2char ''ohle'' 2 = Some CHR ''l''
   \<and> dom (char2int ''ohle'') = set ''hello''
   \<and> bij_betw (\<lambda>ch. the (char2int ''ohle'' ch)) (set ''hello'') {0..<length ''ohle''}"
proof -
  have h: "is_tuple_of_set ''hello'' ''ohle''"
    by (auto simp: is_tuple_of_set_def)
  have "char2int ''ohle'' CHR ''l'' = Some 2"
    by (simp add: char2int_def enumerate_py_def dict_of_def upt_rec)
  moreover have "int2char ''ohle'' 2 = Some CHR ''l''"
    by (simp add: int2char_def enumerate_py_def dict_of_def upt_rec)
  ultimately show ?thesis using h alphabet_bijection [OF h] by simp
qed

subsection \<open>The batches: their number, their shape and the shift\<close>

lemma py_range_mult: "0 < step \<Longrightarrow> py_range (step * k) step = map (\<lambda>i. i * step) [0..<k]"
proof -
  assume s: "0 < step"
  have "(step * k + step - 1) div step = k"
  proof (rule div_nat_eqI)
    show "step * k \<le> step * k + step - 1" using s by simp
    show "step * k + step - 1 < step * Suc k" using s by simp
  qed
  then show ?thesis by (simp add: py_range_def)
qed

lemma reshape_row_length:
  assumes "n_rows * n_cols \<le> length arr" "row \<in> set (reshape arr n_rows n_cols)"
  shows "length row = n_cols"
proof -
  from assms(2) obtain i where i: "i < n_rows" and r: "row = take n_cols (drop (i * n_cols) arr)"
    by (auto simp: reshape_def)
  from i have "Suc i * n_cols \<le> n_rows * n_cols" by (intro mult_le_mono1) simp
  with assms(1) have "i * n_cols + n_cols \<le> length arr" by simp
  with r show ?thesis by simp
qed

lemma shape1_reshape:
  assumes "0 < n_rows" "n_rows * n_cols \<le> length arr"
  shows "shape1 (reshape arr n_rows n_cols) = n_cols"
proof -
  from assms(1) obtain r rs where e: "reshape arr n_rows n_cols = r # rs"
    by (cases "reshape arr n_rows n_cols") (auto simp: reshape_def)
  then have "r \<in> set (reshape arr n_rows n_cols)" by simp
  with assms(2) have "length r = n_cols" by (rule reshape_row_length)
  with e show ?thesis by (simp add: shape1_def)
qed

lemma get_batches_empty:
  assumes "0 < batch_size" "0 < seq_length" "length arr div (batch_size * seq_length) = 0"
  shows "get_batches arr batch_size seq_length = Inr []"
proof -
  have "reshape ([] :: 'a list) batch_size 0 = replicate batch_size []"
    by (simp add: reshape_def map_replicate_const)
  moreover have "shape1 (replicate batch_size ([] :: 'a list)) = 0"
    using assms(1) by (cases batch_size) (simp_all add: shape1_def)
  moreover have "py_range 0 seq_length = []"
    using assms(2) by (simp add: py_range_def)
  ultimately show ?thesis using assms by (simp add: get_batches_def)
qed

lemma get_batches_Inr:
  assumes "0 < batch_size" "0 < seq_length" "batch_size * seq_length \<le> length arr"
  defines "n_batches \<equiv> length arr div (batch_size * seq_length)"
  defines "mat \<equiv> reshape (take (n_batches * (batch_size * seq_length)) arr) batch_size (seq_length * n_batches)"
  shows "get_batches arr batch_size seq_length =
           Inr (map (\<lambda>k. (window_x mat (k * seq_length) seq_length,
                           window_y mat (k * seq_length) seq_length)) [0..<n_batches])"
    and "length mat = batch_size"
    and "row \<in> set mat \<Longrightarrow> length row = seq_length * n_batches"
    and "0 < n_batches"
proof -
  have pos: "0 < batch_size * seq_length" using assms by simp
  show nb: "0 < n_batches" using assms(3) pos by (simp add: n_batches_def div_greater_zero_iff)
  have len: "length (take (n_batches * (batch_size * seq_length)) arr) = n_batches * (batch_size * seq_length)"
    by (simp add: n_batches_def)
  have le: "batch_size * (seq_length * n_batches) \<le> length (take (n_batches * (batch_size * seq_length)) arr)"
    unfolding len by (simp add: algebra_simps)
  show "length mat = batch_size" by (simp add: mat_def reshape_def)
  show "row \<in> set mat \<Longrightarrow> length row = seq_length * n_batches"
    unfolding mat_def using le by (rule reshape_row_length)
  have "shape1 mat = seq_length * n_batches"
    unfolding mat_def using assms(1) le by (rule shape1_reshape)
  then show "get_batches arr batch_size seq_length =
           Inr (map (\<lambda>k. (window_x mat (k * seq_length) seq_length,
                           window_y mat (k * seq_length) seq_length)) [0..<n_batches])"
    using pos nb assms(2)
    by (simp add: get_batches_def Let_def n_batches_def [symmetric] mat_def [symmetric]
        py_range_mult comp_def)
qed

text \<open>
  C4. For a corpus of length \<open>L\<close>, a batch size \<open>N \<ge> 1\<close> and a sequence length \<open>M \<ge> 1\<close>
  with \<open>N * M \<le> L\<close>, \<open>get_batches\<close> yields exactly \<open>floor(L / (N * M))\<close> batches, and
  every \<open>x\<close> and every \<open>y\<close> it yields has \<open>N\<close> rows of \<open>M\<close> columns.
\<close>

theorem get_batches_count_shape:
  assumes "1 \<le> batch_size" "1 \<le> seq_length" "batch_size * seq_length \<le> length arr"
  shows "\<exists>bs. get_batches arr batch_size seq_length = Inr bs
           \<and> length bs = length arr div (batch_size * seq_length)
           \<and> (\<forall>(x, y) \<in> set bs.
                 length x = batch_size \<and> (\<forall>row \<in> set x. length row = seq_length)
               \<and> length y = batch_size \<and> (\<forall>row \<in> set y. length row = seq_length))"
proof -
  define n_batches where "n_batches = length arr div (batch_size * seq_length)"
  define mat where "mat = reshape (take (n_batches * (batch_size * seq_length)) arr) batch_size (seq_length * n_batches)"
  define bs where "bs = map (\<lambda>k. (window_x mat (k * seq_length) seq_length,
                           window_y mat (k * seq_length) seq_length)) [0..<n_batches]"
  from assms have p: "0 < batch_size" "0 < seq_length" by simp_all
  note gb = get_batches_Inr [OF p assms(3), folded n_batches_def, folded mat_def]
  have e: "get_batches arr batch_size seq_length = Inr bs" unfolding bs_def by (rule gb(1))
  have l: "length bs = n_batches" by (simp add: bs_def)
  have "length x = batch_size \<and> (\<forall>row \<in> set x. length row = seq_length)
               \<and> length y = batch_size \<and> (\<forall>row \<in> set y. length row = seq_length)"
    if "(x, y) \<in> set bs" for x y
  proof -
    from that obtain k where k: "k < n_batches" and x: "x = window_x mat (k * seq_length) seq_length"
      and y: "y = window_y mat (k * seq_length) seq_length" by (auto simp: bs_def)
    from k have "Suc k * seq_length \<le> n_batches * seq_length" by (intro mult_le_mono1) simp
    then have b: "k * seq_length + seq_length \<le> seq_length * n_batches" by (simp add: algebra_simps)
    have "length (take seq_length (drop (k * seq_length) row)) = seq_length" if "row \<in> set mat" for row
      using gb(3) [OF that] b by simp
    moreover have "length (take (seq_length - 1) (drop (k * seq_length + 1) row) @ [z]) = seq_length"
      if "row \<in> set mat" for row and z :: 'a
      using gb(3) [OF that] b p(2) by simp
    ultimately show ?thesis using gb(2) by (auto simp: x y window_x_def window_y_def)
  qed
  with e l show ?thesis unfolding n_batches_def by blast
qed

theorem get_batches_count_shape_witness:
  "(1::nat) \<le> 2 \<and> (1::nat) \<le> 3 \<and> 2 * 3 \<le> length [0, 1, 2, 3, 4, 5, 6, 7, 8, 9, 10, 11, 12 :: nat]
   \<and> (\<exists>bs. get_batches [0, 1, 2, 3, 4, 5, 6, 7, 8, 9, 10, 11, 12 :: nat] 2 3 = Inr bs
          \<and> length bs = 2)"
proof -
  have a: "(1::nat) \<le> 2" "(1::nat) \<le> 3"
    "2 * 3 \<le> length [0, 1, 2, 3, 4, 5, 6, 7, 8, 9, 10, 11, 12 :: nat]" by simp_all
  from get_batches_count_shape [OF a]
  have "\<exists>bs. get_batches [0, 1, 2, 3, 4, 5, 6, 7, 8, 9, 10, 11, 12 :: nat] 2 3 = Inr bs
          \<and> length bs = 2" by auto
  then show ?thesis by simp
qed

text \<open>
  C2. In every batch \<open>(x, y)\<close> that \<open>get_batches\<close> yields, for every row \<open>i < N\<close> and every
  column \<open>j\<close> with \<open>j < M - 1\<close>, \<open>y[i][j] = x[i][j + 1]\<close>: the targets are the inputs
  shifted one column to the left, on all but the last column.
\<close>

theorem get_batches_shift:
  assumes "get_batches arr batch_size seq_length = Inr bs" "(x, y) \<in> set bs"
    "i < batch_size" "j + 1 < seq_length"
  shows "y ! i ! j = x ! i ! (j + 1)"
proof -
  define n_batches where "n_batches = length arr div (batch_size * seq_length)"
  define mat where "mat = reshape (take (n_batches * (batch_size * seq_length)) arr) batch_size (seq_length * n_batches)"
  from assms(3,4) have p: "0 < batch_size" "0 < seq_length" by simp_all
  have le: "batch_size * seq_length \<le> length arr"
  proof (rule ccontr)
    assume "\<not> ?thesis"
    then have "length arr div (batch_size * seq_length) = 0" by simp
    from get_batches_empty [OF p this] assms(1,2) show False by simp
  qed
  note gb = get_batches_Inr [OF p le, folded n_batches_def, folded mat_def]
  from assms(1,2) gb(1) obtain k where k: "k < n_batches" and x: "x = window_x mat (k * seq_length) seq_length"
      and y: "y = window_y mat (k * seq_length) seq_length" by auto
  from k have "Suc k * seq_length \<le> n_batches * seq_length" by (intro mult_le_mono1) simp
  then have b: "k * seq_length + seq_length \<le> seq_length * n_batches" by (simp add: algebra_simps)
  from assms(3) gb(2) have i: "i < length mat" by simp
  then have "mat ! i \<in> set mat" by simp
  then have lr: "length (mat ! i) = seq_length * n_batches" by (rule gb(3))
  have j: "j < seq_length - 1" using assms(4) by simp
  have "length (take (seq_length - 1) (drop (k * seq_length + 1) (mat ! i))) = seq_length - 1"
    using lr b by simp
  with j have "y ! i ! j = (take (seq_length - 1) (drop (k * seq_length + 1) (mat ! i))) ! j"
    using i by (simp add: y window_y_def nth_append)
  also have "\<dots> = (mat ! i) ! Suc (k * seq_length + j)"
    using j lr b by simp
  finally have l: "y ! i ! j = (mat ! i) ! Suc (k * seq_length + j)" .
  have kl: "k * seq_length \<le> length (mat ! i)" using lr k by simp
  have "x ! i ! (j + 1) = (mat ! i) ! Suc (k * seq_length + j)"
    using i assms(4) kl by (simp add: x window_x_def)
  with l show ?thesis by simp
qed

theorem get_batches_shift_witness:
  "get_batches [0, 1, 2, 3, 4, 5, 6, 7 :: nat] 2 2
     = Inr [([[0, 1], [4, 5]], [[1, 2], [5, 6]]), ([[2, 3], [6, 7]], [[3, 0], [7, 4]])]
   \<and> ([[2, 3], [6, 7]], [[3, 0], [7, 4]])
       \<in> set [([[0, 1], [4, 5]], [[1, 2], [5, 6]]), ([[2, 3], [6, 7 :: nat]], [[3, 0], [7, 4]])]
   \<and> (1::nat) < 2 \<and> (0::nat) + 1 < 2
   \<and> [[3, 0], [7, 4 :: nat]] ! 1 ! 0 = [[2, 3], [6, 7]] ! 1 ! (0 + 1)"
proof -
  have a: "get_batches [0, 1, 2, 3, 4, 5, 6, 7 :: nat] 2 2
     = Inr [([[0, 1], [4, 5]], [[1, 2], [5, 6]]), ([[2, 3], [6, 7]], [[3, 0], [7, 4]])]"
    by (simp add: batch_defs)
  have b: "([[2, 3], [6, 7]], [[3, 0], [7, 4]])
       \<in> set [([[0, 1], [4, 5]], [[1, 2], [5, 6]]), ([[2, 3], [6, 7 :: nat]], [[3, 0], [7, 4]])]"
    by simp
  have c: "(1::nat) < 2" "(0::nat) + 1 < 2" by simp_all
  from get_batches_shift [OF a b c] a b show ?thesis by simp
qed




subsection \<open>Lemmas on the library calls\<close>

lemma takeWhile_last: "xs \<noteq> [] \<Longrightarrow> \<not> P (last xs) \<Longrightarrow> length (takeWhile P xs) < length xs"
  by (induction xs) (auto split: if_splits)

lemma cumsum_from_length: "length (cumsum_from acc xs) = length xs"
  by (induction xs arbitrary: acc) simp_all

lemma cumsum_from_last: "xs \<noteq> [] \<Longrightarrow> last (cumsum_from acc xs) = acc + sum_list xs"
proof (induction xs arbitrary: acc)
  case Nil
  then show ?case by simp
next
  case (Cons x xs)
  show ?case
  proof (cases xs)
    case Nil
    then show ?thesis by simp
  next
    case (Cons y ys)
    then have "xs \<noteq> []" by simp
    from Cons.IH [OF this, of "acc + x"] Cons show ?thesis
      by (simp add: cumsum_from_length algebra_simps)
  qed
qed

lemma sum_list_divide: "sum_list (map (\<lambda>x. x / s) xs) = sum_list xs / (s::rat)"
  by (induction xs) (simp_all add: add_divide_distrib)

lemma cumsum_from_nth:
  "k < length xs \<Longrightarrow> cumsum_from acc xs ! k = acc + sum_list (take (Suc k) xs)"
proof (induction xs arbitrary: acc k)
  case Nil
  then show ?case by simp
next
  case (Cons x xs)
  then show ?case by (cases k) (simp_all add: add.assoc)
qed

lemma takeWhile_bounds:
  assumes "i = length (takeWhile P xs)"
  shows "\<forall>k < i. P (xs ! k)" and "i < length xs \<Longrightarrow> \<not> P (xs ! i)"
proof -
  show "\<forall>k < i. P (xs ! k)"
  proof (intro allI impI)
    fix k assume "k < i"
    with assms have k: "k < length (takeWhile P xs)" by simp
    then have "takeWhile P xs ! k \<in> set (takeWhile P xs)" by simp
    then have "P (takeWhile P xs ! k)" by (rule set_takeWhileD [THEN conjunct2])
    with k show "P (xs ! k)" by (simp add: takeWhile_nth)
  qed
  show "i < length xs \<Longrightarrow> \<not> P (xs ! i)"
    using assms nth_length_takeWhile [of P xs] by simp
qed

lemma searchsorted_right_interval:
  assumes "i = searchsorted_right (cumsum qs) u" "i < length qs" "0 \<le> u"
  shows "sum_list (take i qs) \<le> u" and "u < sum_list (take (Suc i) qs)"
proof -
  let ?cdf = "cumsum qs"
  have len: "length ?cdf = length qs" by (simp add: cumsum_def cumsum_from_length)
  from assms(1) have i: "i = length (takeWhile (\<lambda>c. c \<le> u) ?cdf)"
    by (simp add: searchsorted_right_def)
  note tb = takeWhile_bounds [OF i]
  show "sum_list (take i qs) \<le> u"
  proof (cases i)
    case 0
    with assms(3) show ?thesis by simp
  next
    case (Suc k)
    with tb(1) have "?cdf ! k \<le> u" by simp
    moreover from Suc assms(2) have "k < length qs" by simp
    ultimately show ?thesis using Suc by (simp add: cumsum_def cumsum_from_nth)
  qed
  from tb(2) assms(2) len have "\<not> ?cdf ! i \<le> u" by simp
  with assms(2) show "u < sum_list (take (Suc i) qs)"
    by (simp add: cumsum_def cumsum_from_nth)
qed

lemma np_random_choice_1d:
  assumes "idxs \<noteq> []" "length vals = length idxs" "\<forall>x \<in> set vals. 0 \<le> x"
    "0 < sum_list vals" "0 \<le> g 0" "g 0 < 1"
  shows "\<exists>i < length idxs.
           np_random_choice (NDArray [n] idxs) (np_divide (NDArray [m] vals) (sum_list vals)) g
             = Inr (idxs ! i, \<lambda>k. g (Suc k))
         \<and> sum_list (take i (renormalized vals)) \<le> g 0
         \<and> g 0 < sum_list (take (Suc i) (renormalized vals))"
proof -
  define s where "s = sum_list vals"
  define qs where "qs = map (\<lambda>x. x / s) vals"
  have rn: "renormalized vals = qs" by (simp add: renormalized_def qs_def s_def)
  have s: "0 < s" using assms(4) by (simp add: s_def)
  have pop: "population (NDArray [n] idxs) = Inr idxs"
    using assms(1) by (simp add: population_def ndim_def)
  have fl: "flat (np_divide (NDArray [m] vals) s) = map (\<lambda>x. Some (x / s)) vals"
    using s by (simp add: np_divide_def)
  have the: "map the (flat (np_divide (NDArray [m] vals) s)) = qs"
    by (simp add: fl qs_def comp_def)
  have nonneg: "\<not> (\<exists>x \<in> set qs. x < 0)"
    using assms(3) s by (auto simp: qs_def not_less)
  have sum1: "sum_list qs = 1"
    using s by (simp add: qs_def sum_list_divide s_def)
  have ne: "qs \<noteq> []" using assms(1,2) by (auto simp: qs_def)
  then have cne: "cumsum qs \<noteq> []"
    using cumsum_from_length [of 0 qs] by (auto simp: cumsum_def)
  have last1: "last (cumsum qs) = 1"
    using cumsum_from_last [OF ne, of 0] sum1 by (simp add: cumsum_def)
  define i where "i = searchsorted_right (map (\<lambda>c. c / last (cumsum qs)) (cumsum qs)) (g 0)"
  have iss: "i = searchsorted_right (cumsum qs) (g 0)"
    by (simp add: i_def last1)
  then have "i = length (takeWhile (\<lambda>c. c \<le> g 0) (cumsum qs))"
    by (simp add: searchsorted_right_def)
  also have "\<dots> < length (cumsum qs)"
    using cne last1 assms(6) by (intro takeWhile_last) simp_all
  also have "\<dots> = length idxs"
    using assms(2) by (simp add: cumsum_def cumsum_from_length qs_def)
  finally have i: "i < length idxs" .
  have "np_random_choice (NDArray [n] idxs) (np_divide (NDArray [m] vals) s) g
             = Inr (idxs ! i, \<lambda>k. g (Suc k))"
  proof -
    have sh: "ndim (np_divide (NDArray [m] vals) s) = 1"
      by (simp add: np_divide_def ndim_def)
    have len: "length (flat (np_divide (NDArray [m] vals) s)) = length idxs"
      using assms(2) by (simp add: fl)
    have nn: "None \<notin> set (flat (np_divide (NDArray [m] vals) s))"
      by (auto simp: fl)
    show ?thesis
      unfolding np_random_choice_def pop
      using nonneg sum1 i
      by (simp add: sh len nn the atol_def random_sample_def Let_def i_def [symmetric])
  qed
  moreover have "i < length qs" using i assms(2) by (simp add: qs_def)
  note searchsorted_right_interval [OF iss this assms(5)]
  ultimately show ?thesis using i unfolding s_def rn by blast
qed


lemma ranked_length: "length (ranked row) = length row"
  by (simp add: ranked_def)

lemma ranked_set: "set (ranked row) = {(row ! i, i) | i. i < length row}"
proof -
  have "set (ranked row) = set (zip row [0..<length row])" by (simp add: ranked_def)
  also have "\<dots> = {(row ! i, i) | i. i < length row}"
    by (auto simp: set_zip)
  finally show ?thesis .
qed

lemma ranked_sorted: "sorted_wrt (\<lambda>a b. fst b \<le> fst a) (ranked row)"
proof -
  have "sorted (map (\<lambda>(v, i). - v) (ranked row))"
    unfolding ranked_def by (rule sorted_sort_key)
  then have "sorted_wrt (\<lambda>a b. (case a of (v, i) \<Rightarrow> - v) \<le> (case b of (v, i) \<Rightarrow> - v))
               (ranked row)"
    by (simp add: sorted_wrt_map)
  then show ?thesis
    by (rule sorted_wrt_mono_rel [rotated]) (auto simp: case_prod_beta)
qed

lemma ranked_nth_le:
  assumes "m \<le> t" "t < length row"
  shows "fst (ranked row ! t) \<le> fst (ranked row ! m)"
proof (cases "m = t")
  case True
  then show ?thesis by simp
next
  case False
  with assms have "m < t" "t < length (ranked row)" by (simp_all add: ranked_length)
  with ranked_sorted [of row] show ?thesis by (simp add: sorted_wrt_iff_nth_less)
qed

lemma ranked_nth:
  assumes "m < length row"
  shows "snd (ranked row ! m) < length row" and "fst (ranked row ! m) = row ! snd (ranked row ! m)"
proof -
  from assms have "ranked row ! m \<in> set (ranked row)" by (simp add: ranked_length)
  then obtain i where "ranked row ! m = (row ! i, i)" "i < length row"
    unfolding ranked_set by blast
  then show "snd (ranked row ! m) < length row" "fst (ranked row ! m) = row ! snd (ranked row ! m)"
    by simp_all
qed

lemma ranked_greater_count:
  assumes "m < length row"
  shows "card {j. j < length row \<and> fst (ranked row ! m) < row ! j} \<le> m"
proof -
  let ?ys = "ranked row"
  have sub: "{j. j < length row \<and> fst (?ys ! m) < row ! j} \<subseteq> snd ` set (take m ?ys)"
  proof
    fix j assume "j \<in> {j. j < length row \<and> fst (?ys ! m) < row ! j}"
    then have j: "j < length row" and gt: "fst (?ys ! m) < row ! j" by simp_all
    from j have "(row ! j, j) \<in> set ?ys" unfolding ranked_set by blast
    then obtain t where t: "t < length ?ys" "?ys ! t = (row ! j, j)"
      by (auto simp: in_set_conv_nth)
    have "t < m"
    proof (rule ccontr)
      assume "\<not> t < m"
      then have "m \<le> t" by simp
      with t(1) have "fst (?ys ! t) \<le> fst (?ys ! m)"
        by (intro ranked_nth_le) (simp_all add: ranked_length)
      with t(2) gt show False by simp
    qed
    with t have "(row ! j, j) \<in> set (take m ?ys)"
      by (auto simp: in_set_conv_nth)
    then show "j \<in> snd ` set (take m ?ys)" by force
  qed
  have "card (snd ` set (take m ?ys)) \<le> card (set (take m ?ys))"
    by (rule card_image_le) simp
  also have "\<dots> \<le> length (take m ?ys)" by (rule card_length)
  also have "\<dots> \<le> m" by simp
  finally have "card (snd ` set (take m ?ys)) \<le> m" .
  moreover have "card {j. j < length row \<and> fst (?ys ! m) < row ! j} \<le> card (snd ` set (take m ?ys))"
    by (rule card_mono [OF _ sub]) simp
  ultimately show ?thesis by simp
qed

lemma ranked_top_sum_pos:
  assumes "1 \<le> K" "K \<le> length row" "\<forall>q \<in> set row. 0 \<le> q" "sum_list row = 1"
  shows "0 < sum_list (map fst (take K (ranked row)))"
proof -
  let ?ys = "ranked row"
  let ?sel = "map fst (take K ?ys)"
  have mem: "0 \<le> v" if "v \<in> set ?sel" for v
  proof -
    from that obtain y where "y \<in> set ?ys" "v = fst y" by (auto dest: in_set_takeD)
    then obtain i where "i < length row" "v = row ! i" unfolding ranked_set by auto
    with assms(3) show ?thesis by simp
  qed
  then have ge: "0 \<le> sum_list ?sel" by (intro sum_list_nonneg) simp
  have "sum_list ?sel \<noteq> 0"
  proof
    assume "sum_list ?sel = 0"
    moreover have "(sum_list ?sel = 0) = (\<forall>v \<in> set ?sel. v = 0)"
      by (rule sum_list_nonneg_eq_0_iff) (use mem in blast)
    ultimately have all0: "\<forall>v \<in> set ?sel. v = 0" by blast
    from assms(1,2) have "0 < length (take K ?ys)" by (simp add: ranked_length)
    then have "fst (?ys ! 0) \<in> set ?sel"
      using assms(1,2) by (auto simp: in_set_conv_nth ranked_length intro!: image_eqI [where x = "take K ?ys ! 0"] exI [of _ 0])
    with all0 have top0: "fst (?ys ! 0) = 0" by blast
    have "row ! j = 0" if "j < length row" for j
    proof -
      from that have "(row ! j, j) \<in> set ?ys" unfolding ranked_set by blast
      then obtain t where t: "t < length ?ys" "?ys ! t = (row ! j, j)"
        by (auto simp: in_set_conv_nth)
      then have "fst (?ys ! t) \<le> fst (?ys ! 0)"
        by (intro ranked_nth_le) (simp_all add: ranked_length)
      with t(2) top0 have "row ! j \<le> 0" by simp
      moreover from that assms(3) have "0 \<le> row ! j" by simp
      ultimately show ?thesis by simp
    qed
    then have "\<forall>q \<in> set row. q = 0" by (auto simp: in_set_conv_nth)
    then have "sum_list row = 0" by (induction row) simp_all
    with assms(4) show False by simp
  qed
  with ge show ?thesis by simp
qed


lemma one_hot_single:
  "ci < n \<Longrightarrow> one_hot_encode [[ci]] n = Inr [[map (\<lambda>j. if j = ci then 1 else 0) [0..<n]]]"
  by (simp add: one_hot_encode_def)

subsection \<open>When \<open>predict\<close> returns a character\<close>

lemma predict_unfold:
  assumes "char2int (chars net) char = Some ci"
    and "forward net (one_hot_input net ci) h0 = (out, h1)"
  shows "predict net char (Some h0) top_k g =
     (case (case top_k of
              None \<Rightarrow> Inr (NDArray [1, length out] out, arange (length (chars net)))
            | Some k \<Rightarrow>
                (case topk (NDArray [1, length out] out) k of
                   Inl e \<Rightarrow> Inl e
                 | Inr (p', top_ch) \<Rightarrow> Inr (p', squeeze top_ch))) of
        Inl e \<Rightarrow> Inl e
      | Inr (p1, top_ch) \<Rightarrow>
     (case np_random_choice top_ch (np_divide (squeeze p1) (np_sum (squeeze p1))) g of
        Inl e \<Rightarrow> Inl e
      | Inr (c, g') \<Rightarrow>
     (case int2char (chars net) c of
        None \<Rightarrow> Inl ''KeyError''
      | Some ch \<Rightarrow> Inr (ch, h1, g'))))"
proof -
  from assms(1) have "ci < length (chars net)" by (rule char2int_less)
  then have "one_hot_encode [[ci]] (length (chars net)) = Inr (one_hot_input net ci)"
    by (simp add: one_hot_single one_hot_input_def)
  with assms show ?thesis
    by (simp add: predict_def Let_def del: One_nat_def
        cong del: sum.case_cong_weak option.case_cong_weak prod.case_cong_weak)
qed

lemma wf_netD:
  assumes "wf_net net" "forward net x h = (out, h1)"
  shows "length out = length (chars net)" "\<forall>q \<in> set out. 0 \<le> q" "sum_list out = 1"
proof -
  from assms(2) have "fst (forward net x h) = out" by simp
  with assms(1) show "length out = length (chars net)" "\<forall>q \<in> set out. 0 \<le> q" "sum_list out = 1"
    unfolding wf_net_def by metis+
qed

text \<open>
  For \<open>2 \<le> top_k \<le> V\<close>, \<open>predict\<close> returns a token that has fewer than \<open>top_k\<close> tokens of
  a strictly higher probability. The token is the candidate of rank \<open>m\<close> where the
  uniform sample falls between the sums of the first \<open>m\<close> and of the first \<open>m + 1\<close>
  renormalized probabilities of the candidates, which sum to one.
\<close>

lemma predict_top_k:
  assumes wf: "wf_net net" and c2i: "char2int (chars net) char = Some ci"
    and fw: "forward net (one_hot_input net ci) h0 = (out, h1)"
    and k: "2 \<le> k" "k \<le> int (length (chars net))"
    and g: "0 \<le> g 0" "g 0 < 1"
  shows "\<exists>i < length (chars net).
           predict net char (Some h0) (Some k) g = Inr (chars net ! i, h1, \<lambda>n. g (Suc n))
         \<and> card {j. j < length (chars net) \<and> out ! i < out ! j} < nat k
         \<and> sum_list (renormalized (map fst (take (nat k) (ranked out)))) = 1
         \<and> (\<exists>m < nat k. i = snd (ranked out ! m)
               \<and> sum_list (take m (renormalized (map fst (take (nat k) (ranked out))))) \<le> g 0
               \<and> g 0 < sum_list (take (Suc m) (renormalized (map fst (take (nat k) (ranked out))))))"
proof -
  let ?V = "length (chars net)"
  let ?K = "nat k"
  note o = wf_netD [OF wf fw]
  define sel where "sel = take ?K (ranked out)"
  have K: "2 \<le> ?K" "?K \<le> length out" "?K \<noteq> 1" using k o(1) by simp_all
  have tk: "topk (NDArray [1, length out] out) k
              = Inr (NDArray [1, ?K] (map fst sel), NDArray [1, ?K] (map snd sel))"
    using k o(1) by (simp add: topk_def sel_def Let_def)
  have lsel: "length sel = ?K" using K by (simp add: sel_def ranked_length)
  have sq1: "squeeze (NDArray [1, ?K] (map snd sel)) = NDArray [?K] (map snd sel)"
    and sq2: "squeeze (NDArray [1, ?K] (map fst sel)) = NDArray [?K] (map fst sel)"
    using K by (simp_all add: squeeze_def)
  have nonneg: "\<forall>x \<in> set (map fst sel). 0 \<le> x"
  proof
    fix x assume "x \<in> set (map fst sel)"
    then obtain y where "y \<in> set (ranked out)" "x = fst y"
      by (auto simp: sel_def dest: in_set_takeD)
    then obtain i where "i < length out" "x = out ! i" unfolding ranked_set by auto
    with o(2) show "0 \<le> x" by simp
  qed
  have pos: "0 < sum_list (map fst sel)"
    unfolding sel_def using K o by (intro ranked_top_sum_pos) simp_all
  have "map snd sel \<noteq> []" using lsel K by auto
  from np_random_choice_1d [where g = g and n = ?K and m = ?K, OF this _ nonneg pos g] lsel
  obtain m where m: "m < ?K"
    and ch: "np_random_choice (NDArray [?K] (map snd sel))
               (np_divide (NDArray [?K] (map fst sel)) (sum_list (map fst sel))) g
             = Inr (map snd sel ! m, \<lambda>n. g (Suc n))"
    and lo: "sum_list (take m (renormalized (map fst sel))) \<le> g 0"
    and hi: "g 0 < sum_list (take (Suc m) (renormalized (map fst sel)))"
    by auto
  have one: "sum_list (renormalized (map fst sel)) = 1"
    unfolding renormalized_def sum_list_divide using pos by simp
  define i where "i = snd (ranked out ! m)"
  from m K have mV: "m < length out" by simp
  have sm: "map snd sel ! m = i" using m lsel by (simp add: sel_def i_def)
  have iV: "i < ?V" using ranked_nth(1) [OF mV] o(1) by (simp add: i_def)
  have val: "fst (ranked out ! m) = out ! i" using ranked_nth(2) [OF mV] by (simp add: i_def)
  have "card {j. j < length out \<and> out ! i < out ! j} \<le> m"
    using ranked_greater_count [OF mV] by (simp add: val)
  with m o(1) have cnt: "card {j. j < ?V \<and> out ! i < out ! j} < ?K" by simp
  have "predict net char (Some h0) (Some k) g = Inr (chars net ! i, h1, \<lambda>n. g (Suc n))"
    using iV by (simp add: predict_unfold [OF c2i fw] tk sq1 sq2 np_sum_def ch sm int2char_nth
        del: One_nat_def)
  with iV cnt one m lo hi show ?thesis unfolding sel_def i_def by blast
qed

lemma predict_full:
  assumes wf: "wf_net net" and c2i: "char2int (chars net) char = Some ci"
    and fw: "forward net (one_hot_input net ci) h0 = (out, h1)"
    and V: "2 \<le> length (chars net)"
    and g: "0 \<le> g 0" "g 0 < 1"
  shows "\<exists>i < length (chars net).
           predict net char (Some h0) None g = Inr (chars net ! i, h1, \<lambda>n. g (Suc n))"
proof -
  let ?V = "length (chars net)"
  note o = wf_netD [OF wf fw]
  have sq: "squeeze (NDArray [1, length out] out) = NDArray [?V] out"
    using V o(1) by (simp add: squeeze_def)
  have ne: "[0..<?V] \<noteq> []" using V by auto
  have pos: "0 < sum_list out" using o(3) by simp
  from np_random_choice_1d [where g = g and n = ?V and m = ?V, OF ne _ o(2) pos g] o(1)
  obtain m where m: "m < ?V"
    and ch: "np_random_choice (NDArray [?V] [0..<?V]) (np_divide (NDArray [?V] out) (sum_list out)) g
             = Inr ([0..<?V] ! m, \<lambda>n. g (Suc n))"
    by auto
  have "predict net char (Some h0) None g = Inr (chars net ! m, h1, \<lambda>n. g (Suc n))"
    using m by (simp add: predict_unfold [OF c2i fw] arange_def sq np_sum_def ch int2char_nth
        del: One_nat_def)
  with m show ?thesis by blast
qed

lemma predict_ok:
  assumes "wf_net net" "char \<in> set (chars net)" "valid_top_k (length (chars net)) top_k"
    "0 \<le> g 0" "g 0 < 1"
  shows "\<exists>c h1. predict net char (Some h0) top_k g = Inr (c, h1, \<lambda>n. g (Suc n))
               \<and> c \<in> set (chars net)"
proof -
  from assms(2) obtain ci where c2i: "char2int (chars net) char = Some ci"
    using char2int_Some by blast
  obtain out h1 where fw: "forward net (one_hot_input net ci) h0 = (out, h1)"
    by (cases "forward net (one_hot_input net ci) h0")
  show ?thesis
  proof (cases top_k)
    case None
    with assms(3) have "2 \<le> length (chars net)" by (simp add: valid_top_k_def)
    from predict_full [where g = g, OF assms(1) c2i fw this assms(4,5)] None show ?thesis
      by (metis nth_mem)
  next
    case (Some k)
    with assms(3) have "2 \<le> k" "k \<le> int (length (chars net))" by (simp_all add: valid_top_k_def)
    from predict_top_k [where g = g, OF assms(1) c2i fw this assms(4,5)] Some show ?thesis
      by (metis nth_mem)
  qed
qed


lemma wf_rngD: "wf_rng g \<Longrightarrow> 0 \<le> g 0" "wf_rng g \<Longrightarrow> g 0 < 1"
  "wf_rng g \<Longrightarrow> wf_rng (\<lambda>n. g (Suc n))"
  by (simp_all add: wf_rng_def)

lemma wf_net3: "wf_net net3"
  by (simp add: wf_net_def net3_def)

lemma wf_rng0: "wf_rng rng0"
  by (simp add: wf_rng_def rng0_def)

lemma prime_loop_ok:
  assumes "wf_net net" "valid_top_k (length (chars net)) top_k"
    "set prime \<subseteq> set (chars net)" "wf_rng g"
  shows "\<exists>c' h1 g1. prime_loop net top_k prime (c0, h, g) = Inr (c', h1, g1) \<and> wf_rng g1
           \<and> (if prime = [] then c' = c0 else \<exists>c \<in> set (chars net). c' = Some c)"
  using assms(3,4)
proof (induction prime arbitrary: c0 h g)
  case Nil
  then show ?case by simp
next
  case (Cons ch rest)
  from Cons.prems have "ch \<in> set (chars net)" by simp
  from predict_ok [where g = g, OF assms(1) this assms(2) wf_rngD(1,2) [OF Cons.prems(2)]]
  obtain c h1 where p: "predict net ch (Some h) top_k g = Inr (c, h1, \<lambda>n. g (Suc n))"
    and c: "c \<in> set (chars net)" by blast
  from Cons.prems have "set rest \<subseteq> set (chars net)" by simp
  from Cons.IH [OF this wf_rngD(3) [OF Cons.prems(2)], of "Some c" h1]
  obtain c' h2 g2 where r: "prime_loop net top_k rest (Some c, h1, \<lambda>n. g (Suc n)) = Inr (c', h2, g2)"
    "wf_rng g2" "if rest = [] then c' = Some c else \<exists>c \<in> set (chars net). c' = Some c"
    by blast
  from r(3) c have "\<exists>c \<in> set (chars net). c' = Some c" by (auto split: if_splits)
  with p r(1,2) show ?case by simp
qed

lemma gen_loop_ok:
  assumes "wf_net net" "valid_top_k (length (chars net)) top_k"
    "cs \<noteq> []" "last cs \<in> set (chars net)" "wf_rng g"
  shows "\<exists>gen h1 g1. gen_loop net top_k n (cs, h, g) = Inr (cs @ gen, h1, g1)
           \<and> length gen = n \<and> set gen \<subseteq> set (chars net)"
  using assms(3,4,5)
proof (induction n arbitrary: cs h g)
  case 0
  then show ?case by simp
next
  case (Suc n)
  from predict_ok [where g = g, OF assms(1) Suc.prems(2) assms(2) wf_rngD(1,2) [OF Suc.prems(3)]]
  obtain c h1 where p: "predict net (last cs) (Some h) top_k g = Inr (c, h1, \<lambda>n. g (Suc n))"
    and c: "c \<in> set (chars net)" by blast
  have "cs @ [c] \<noteq> []" "last (cs @ [c]) \<in> set (chars net)" using c by simp_all
  from Suc.IH [OF this wf_rngD(3) [OF Suc.prems(3)], of h1]
  obtain gen h2 g2 where r: "gen_loop net top_k n (cs @ [c], h1, \<lambda>n. g (Suc n)) = Inr ((cs @ [c]) @ gen, h2, g2)"
    "length gen = n" "set gen \<subseteq> set (chars net)" by blast
  have "gen_loop net top_k (Suc n) (cs, h, g) = Inr (cs @ (c # gen), h2, g2)"
    using p r(1) by simp
  moreover have "length (c # gen) = Suc n" "set (c # gen) \<subseteq> set (chars net)"
    using r(2,3) c by simp_all
  ultimately show ?case by blast
qed

subsection \<open>When \<open>predict\<close> fails\<close>

lemma predict_no_hidden:
  "predict net char None top_k g
     = Inl (if char \<in> set (chars net) then ''TypeError'' else ''KeyError'')"
proof (cases "char \<in> set (chars net)")
  case True
  then obtain ci where "ci < length (chars net)" "char2int (chars net) char = Some ci"
    using char2int_Some by blast
  with True show ?thesis by (simp add: predict_def one_hot_single)
next
  case False
  then show ?thesis by (simp add: predict_def char2int_None)
qed

lemma population_empty: "population (NDArray [0] []) = Inl ''ValueError''"
  by (simp add: population_def ndim_def)

lemma predict_bad_top_k:
  assumes c2i: "char2int (chars net) char = Some ci"
    and fw: "forward net (one_hot_input net ci) h0 = (out, h1)"
    and k: "k \<le> 0 \<or> int (length out) < k"
  shows "predict net char (Some h0) (Some k) g
           = Inl (if k = 0 \<or> k < - (2 ^ 63) \<or> 2 ^ 63 \<le> k then ''ValueError''
                  else ''RuntimeError'')"
proof (cases "k = 0")
  case True
  have "topk (NDArray [1, length out] out) 0 = Inr (NDArray [1, 0] [], NDArray [1, 0] [])"
    by (simp add: topk_def)
  moreover have "squeeze (NDArray [1, 0] ([] :: nat list)) = NDArray [0] []"
    by (simp add: squeeze_def)
  ultimately show ?thesis using True
    by (simp add: predict_unfold [OF c2i fw] np_random_choice_def population_empty
        del: One_nat_def)
next
  case False
  with k have "topk (NDArray [1, length out] out) k
                = Inl (if k < - (2 ^ 63) \<or> 2 ^ 63 \<le> k then ''ValueError'' else ''RuntimeError'')"
    by (auto simp: topk_def)
  with False show ?thesis by (simp add: predict_unfold [OF c2i fw] del: One_nat_def)
qed

lemma np_random_choice_errors:
  assumes "np_random_choice a p g = Inl e"
  shows "e = ''ValueError'' \<or> e = ''TypeError'' \<or> e = ''IndexError''"
proof (cases "population a")
  case (Inl e')
  then have "e' = ''ValueError''"
    by (auto simp: population_def split: if_splits list.splits)
  with Inl assms show ?thesis by (simp add: np_random_choice_def)
next
  case (Inr pop)
  with assms show ?thesis
    by (auto simp: np_random_choice_def Let_def split: if_splits prod.splits)
qed

lemma ranked_take1: "out \<noteq> [] \<Longrightarrow> take 1 (ranked out) = [ranked out ! 0]"
proof -
  assume "out \<noteq> []"
  then have "ranked out \<noteq> []" using ranked_length [of out] by auto
  then show ?thesis by (cases "ranked out") simp_all
qed

subsection \<open>The length of the sampled text\<close>

text \<open>
  C1 (amended). For a network that returns a probability distribution over its \<open>V\<close>
  tokens, uniform samples in \<open>[0, 1)\<close>, a length \<open>L \<ge> 0\<close>, a non-empty prime all of
  whose characters are tokens of the network, and \<open>top_k\<close> either \<^verbatim>\<open>None\<close> with
  \<open>V \<ge> 2\<close> or an integer with \<open>2 \<le> top_k \<le> V\<close>: \<open>sample\<close> returns a string of length
  \<open>len(prime) + 1 + L\<close>, made of the prime, then the character predicted after the last
  character of the prime, then the \<open>L\<close> characters of the second loop, all of them
  tokens of the network.
\<close>

theorem sample_length:
  assumes "wf_net net" "wf_rng g" "0 \<le> size'" "prime \<noteq> []" "set prime \<subseteq> set (chars net)"
    "valid_top_k (length (chars net)) top_k"
  shows "\<exists>c gen h1 g1 h2 g2.
           prime_loop net top_k prime (None, init_hidden net 1, g) = Inr (Some c, h1, g1)
         \<and> gen_loop net top_k (nat size') (prime @ [c], h1, g1) = Inr (prime @ [c] @ gen, h2, g2)
         \<and> sample net size' prime top_k g = Inr (prime @ [c] @ gen, g2)
         \<and> int (length gen) = size'
         \<and> int (length (prime @ [c] @ gen)) = int (length prime) + 1 + size'
         \<and> set ([c] @ gen) \<subseteq> set (chars net)"
proof -
  from prime_loop_ok [OF assms(1,6,5,2), of None "init_hidden net 1"] assms(4)
  obtain c h1 g1 where pl: "prime_loop net top_k prime (None, init_hidden net 1, g) = Inr (Some c, h1, g1)"
    and g1: "wf_rng g1" and c: "c \<in> set (chars net)" by auto
  have "prime @ [c] \<noteq> []" "last (prime @ [c]) \<in> set (chars net)" using c by simp_all
  from gen_loop_ok [OF assms(1,6) this g1, of "nat size'" h1]
  obtain gen h2 g2 where gl: "gen_loop net top_k (nat size') (prime @ [c], h1, g1) = Inr ((prime @ [c]) @ gen, h2, g2)"
    and len: "length gen = nat size'" and sub: "set gen \<subseteq> set (chars net)" by blast
  have "sample net size' prime top_k g = Inr (prime @ [c] @ gen, g2)"
    using pl gl by (simp add: sample_def)
  with pl gl len sub c assms(3) show ?thesis by auto
qed

theorem sample_length_witness:
  "wf_net net3 \<and> wf_rng rng0 \<and> (0::int) \<le> 4 \<and> ''ab'' \<noteq> [] \<and> set ''ab'' \<subseteq> set (chars net3)
   \<and> valid_top_k (length (chars net3)) (Some 2)
   \<and> (\<exists>s g2. sample net3 4 ''ab'' (Some 2) rng0 = Inr (s, g2) \<and> length s = 7)"
proof -
  have a: "set ''ab'' \<subseteq> set (chars net3)" by (simp add: net3_def)
  have b: "valid_top_k (length (chars net3)) (Some 2)" by (simp add: valid_top_k_def net3_def)
  have c: "(0::int) \<le> 4" "''ab'' \<noteq> []" by simp_all
  from sample_length [OF wf_net3 wf_rng0 c a b]
  have "\<exists>s g2. sample net3 4 ''ab'' (Some 2) rng0 = Inr (s, g2) \<and> length s = 7"
    by fastforce
  with wf_net3 wf_rng0 a b show ?thesis by simp
qed

text \<open>
  The claim as it was stated fails: a prime with a character that is not a token stops
  the first loop with a \<^verbatim>\<open>KeyError\<close>, and \<open>top_k = 1\<close>, a positive value not above the
  three tokens, stops it with a \<^verbatim>\<open>TypeError\<close>.
\<close>

theorem sample_length_counterexample:
  "''az'' \<noteq> [] \<and> sample net3 4 ''az'' (Some 2) rng0 = Inl ''KeyError''
   \<and> ''ab'' \<noteq> [] \<and> sample net3 4 ''ab'' (Some 1) rng0 = Inl ''TypeError''"
  by (simp add: eval_defs)

subsection \<open>A \<open>top_k\<close> out of range\<close>

text \<open>
  C5 (amended). For a network that returns a distribution over its \<open>V\<close> tokens and a
  \<open>top_k\<close> that is given with \<open>top_k \<le> 0\<close> or \<open>top_k > V\<close>, \<open>predict\<close> and \<open>sample\<close> fail and
  return no character. No check of \<open>top_k\<close> exists and the error is the one of the
  first step that fails: the \<^verbatim>\<open>KeyError\<close> of the lookup of an unknown character, the
  \<^verbatim>\<open>TypeError\<close> of a missing hidden state, a \<^verbatim>\<open>ValueError\<close> for \<open>top_k = 0\<close> (the random
  choice among no candidates) and for a \<open>top_k\<close> that does not fit a signed 64-bit
  integer (the unpacking of the argument of \<^verbatim>\<open>topk\<close>), the \<^verbatim>\<open>RuntimeError\<close> of \<^verbatim>\<open>topk\<close>
  otherwise; \<open>sample\<close> fails at the first character of the prime, and with the
  \<^verbatim>\<open>UnboundLocalError\<close> of the unassigned variable when the prime is empty.
\<close>

theorem invalid_top_k_fails:
  assumes "wf_net net" "k \<le> 0 \<or> int (length (chars net)) < k"
  shows "predict net char h (Some k) g
           = Inl (if char \<notin> set (chars net) then ''KeyError''
                  else if h = None then ''TypeError''
                  else if k = 0 \<or> k < - (2 ^ 63) \<or> 2 ^ 63 \<le> k then ''ValueError''
                  else ''RuntimeError'')
       \<and> sample net size' prime (Some k) g
           = Inl (case prime of
                    [] \<Rightarrow> ''UnboundLocalError''
                  | ch # rest \<Rightarrow>
                      if ch \<notin> set (chars net) then ''KeyError''
                      else if k = 0 \<or> k < - (2 ^ 63) \<or> 2 ^ 63 \<le> k then ''ValueError''
                      else ''RuntimeError'')"
proof -
  have p: "predict net c h (Some k) g'
           = Inl (if c \<notin> set (chars net) then ''KeyError''
                  else if h = None then ''TypeError''
                  else if k = 0 \<or> k < - (2 ^ 63) \<or> 2 ^ 63 \<le> k then ''ValueError''
                  else ''RuntimeError'')" for c h g'
  proof (cases "c \<in> set (chars net)")
    case False
    then show ?thesis by (simp add: predict_def char2int_None)
  next
    case True
    show ?thesis
    proof (cases h)
      case None
      with True show ?thesis by (simp add: predict_no_hidden)
    next
      case (Some h0)
      from True obtain ci where c2i: "char2int (chars net) c = Some ci"
        using char2int_Some by blast
      obtain out h1 where fw: "forward net (one_hot_input net ci) h0 = (out, h1)"
        by (cases "forward net (one_hot_input net ci) h0")
      from wf_netD(1) [OF assms(1) fw] assms(2) have "k \<le> 0 \<or> int (length out) < k" by simp
      from predict_bad_top_k [OF c2i fw this] True Some show ?thesis by simp
    qed
  qed
  have "sample net size' prime (Some k) g
           = Inl (case prime of
                    [] \<Rightarrow> ''UnboundLocalError''
                  | ch # rest \<Rightarrow>
                      if ch \<notin> set (chars net) then ''KeyError''
                      else if k = 0 \<or> k < - (2 ^ 63) \<or> 2 ^ 63 \<le> k then ''ValueError''
                      else ''RuntimeError'')"
  proof (cases prime)
    case Nil
    then show ?thesis by (simp add: sample_def)
  next
    case (Cons ch rest)
    then show ?thesis by (simp add: sample_def p)
  qed
  with p show ?thesis by simp
qed

theorem invalid_top_k_fails_witness:
  "wf_net net3 \<and> ((4::int) \<le> 0 \<or> int (length (chars net3)) < 4)
   \<and> predict net3 CHR ''a'' (Some 0) (Some 4) rng0 = Inl ''RuntimeError''
   \<and> sample net3 10 ''ab'' (Some 4) rng0 = Inl ''RuntimeError''
   \<and> ((2::int) ^ 63 \<le> 0 \<or> int (length (chars net3)) < 2 ^ 63)
   \<and> predict net3 CHR ''a'' (Some 0) (Some (2 ^ 63)) rng0 = Inl ''ValueError''"
proof -
  have a: "(4::int) \<le> 0 \<or> int (length (chars net3)) < 4" by (simp add: net3_def)
  have a': "(2::int) ^ 63 \<le> 0 \<or> int (length (chars net3)) < 2 ^ 63" by (simp add: net3_def)
  have b: "chars net3 = ''abc''" by (simp add: net3_def)
  from invalid_top_k_fails [OF wf_net3 a, of "CHR ''a''" "Some 0" rng0 10 "''ab''"]
    invalid_top_k_fails [OF wf_net3 a', of "CHR ''a''" "Some 0" rng0 10 "''ab''"]
  show ?thesis using wf_net3 a a' by (simp add: b)
qed

text \<open>
  The claim as it was stated fails: the error is never \<^verbatim>\<open>InvalidTopKError\<close>, a class
  the notebook does not have.
\<close>

theorem invalid_top_k_counterexample:
  "predict net3 CHR ''a'' (Some 0) (Some 0) rng0 = Inl ''ValueError''
   \<and> predict net3 CHR ''a'' (Some 0) (Some 0) rng0 \<noteq> Inl ''InvalidTopKError''
   \<and> predict net3 CHR ''a'' (Some 0) (Some 4) rng0 = Inl ''RuntimeError''
   \<and> predict net3 CHR ''a'' (Some 0) (Some 4) rng0 \<noteq> Inl ''InvalidTopKError''"
  by (simp add: eval_defs)

subsection \<open>\<open>top_k = 1\<close>\<close>

text \<open>
  C10 (amended). With \<open>top_k = 1\<close>, \<open>predict\<close> never returns a character. When the
  lookup of the character succeeds, a hidden state is given and the network returns at
  least one probability, the failure is the one of the sampling step: \<^verbatim>\<open>topk\<close>
  succeeds, the squeeze turns the candidates and their probabilities into
  zero-dimensional arrays, and the random choice raises a \<^verbatim>\<open>ValueError\<close> or a
  \<^verbatim>\<open>TypeError\<close>, which is the result of \<open>predict\<close>. Otherwise \<open>predict\<close> fails before the
  sampling step: with the \<^verbatim>\<open>KeyError\<close> of the lookup for a character that is not a
  token, with the \<^verbatim>\<open>TypeError\<close> of the iteration over the hidden state when it is
  \<^verbatim>\<open>None\<close>, with the \<^verbatim>\<open>RuntimeError\<close> of \<^verbatim>\<open>topk\<close> when the network returns no
  probability.
\<close>

theorem top_k_one_fails:
  "(\<exists>e. predict net char h (Some 1) g = Inl e)
 \<and> (char \<notin> set (chars net) \<longrightarrow> predict net char h (Some 1) g = Inl ''KeyError'')
 \<and> (char \<in> set (chars net) \<longrightarrow> predict net char None (Some 1) g = Inl ''TypeError'')
 \<and> (\<forall>ci h0 h1.
       char2int (chars net) char = Some ci \<and> forward net (one_hot_input net ci) h0 = ([], h1)
       \<longrightarrow> predict net char (Some h0) (Some 1) g = Inl ''RuntimeError'')
 \<and> (\<forall>ci h0 out h1.
       char2int (chars net) char = Some ci \<and> forward net (one_hot_input net ci) h0 = (out, h1)
       \<and> out \<noteq> [] \<longrightarrow>
       (\<exists>p top_ch e.
           topk (NDArray [1, length out] out) 1 = Inr (p, top_ch)
         \<and> ndim (squeeze top_ch) = 0 \<and> ndim (squeeze p) = 0
         \<and> np_random_choice (squeeze top_ch) (np_divide (squeeze p) (np_sum (squeeze p))) g = Inl e
         \<and> (e = ''ValueError'' \<or> e = ''TypeError'')
         \<and> predict net char (Some h0) (Some 1) g = Inl e))"
proof -
  have samp: "\<exists>p top_ch e.
           topk (NDArray [1, length out] out) 1 = Inr (p, top_ch)
         \<and> ndim (squeeze top_ch) = 0 \<and> ndim (squeeze p) = 0
         \<and> np_random_choice (squeeze top_ch) (np_divide (squeeze p) (np_sum (squeeze p))) g = Inl e
         \<and> (e = ''ValueError'' \<or> e = ''TypeError'')
         \<and> predict net char (Some h0) (Some 1) g = Inl e"
    if c2i: "char2int (chars net) char = Some ci"
      and fw: "forward net (one_hot_input net ci) h0 = (out, h1)" and ne: "out \<noteq> []"
    for ci h0 out h1
  proof -
    define v where "v = fst (ranked out ! 0)"
    define i where "i = snd (ranked out ! 0)"
    define p where "p = NDArray [1, 1] [v]"
    define top_ch where "top_ch = NDArray [1, 1] [i]"
    define e where "e = (if i = 0 then ''ValueError'' else ''TypeError'')"
    have t1: "take (Suc 0) (ranked out) = [(v, i)]"
      using ranked_take1 [OF ne] by (simp add: v_def i_def)
    from ne have "\<not> int (length out) < 1" by (cases out) simp_all
    then have tk: "topk (NDArray [1, length out] out) 1 = Inr (p, top_ch)"
      unfolding topk_def Let_def by (simp add: t1 p_def top_ch_def)
    have sq: "squeeze top_ch = NDArray [] [i]" "squeeze p = NDArray [] [v]"
      by (simp_all add: squeeze_def top_ch_def p_def)
    have nd: "ndim (squeeze top_ch) = 0" "ndim (squeeze p) = 0"
      by (simp_all add: sq ndim_def)
    have ch: "np_random_choice (squeeze top_ch) (np_divide (squeeze p) (np_sum (squeeze p))) g = Inl e"
      by (simp add: sq np_random_choice_def population_def ndim_def np_divide_def e_def)
    have "predict net char (Some h0) (Some 1) g = Inl e"
      by (simp add: predict_unfold [OF c2i fw] tk ch del: One_nat_def)
    with tk nd ch show ?thesis
      unfolding e_def by (intro exI [of _ p] exI [of _ top_ch] exI [of _ e]) (simp add: e_def)
  qed
  have empty: "predict net char (Some h0) (Some 1) g = Inl ''RuntimeError''"
    if c2i: "char2int (chars net) char = Some ci"
      and fw: "forward net (one_hot_input net ci) h0 = ([], h1)" for ci h0 h1
  proof -
    have "(1::int) \<le> 0 \<or> int (length ([] :: rat list)) < 1" by simp
    from predict_bad_top_k [OF c2i fw this] show ?thesis by simp
  qed
  have key: "predict net char h (Some 1) g = Inl ''KeyError''" if "char \<notin> set (chars net)"
    using that by (simp add: predict_def char2int_None)
  have hid: "predict net char None (Some 1) g = Inl ''TypeError''" if "char \<in> set (chars net)"
    using that by (simp add: predict_no_hidden)
  have "\<exists>e. predict net char h (Some 1) g = Inl e"
  proof (cases "char \<in> set (chars net)")
    case False
    with key show ?thesis by blast
  next
    case True
    show ?thesis
    proof (cases h)
      case None
      with hid [OF True] show ?thesis by blast
    next
      case (Some h0)
      from True obtain ci where c2i: "char2int (chars net) char = Some ci"
        using char2int_Some by blast
      obtain out h1 where fw: "forward net (one_hot_input net ci) h0 = (out, h1)"
        by (cases "forward net (one_hot_input net ci) h0")
      show ?thesis
      proof (cases "out = []")
        case True
        with empty [OF c2i] fw Some show ?thesis by blast
      next
        case False
        from samp [OF c2i fw False] Some show ?thesis by blast
      qed
    qed
  qed
  with samp empty key hid show ?thesis by blast
qed

theorem top_k_one_fails_witness:
  "char2int (chars net3) CHR ''a'' = Some 0
   \<and> forward net3 (one_hot_input net3 0) 0 = ([1/6, 1/2, 1/3], 1)
   \<and> [1/6, 1/2, 1/3 :: rat] \<noteq> []
   \<and> predict net3 CHR ''a'' (Some 0) (Some 1) rng0 = Inl ''TypeError''
   \<and> CHR ''z'' \<notin> set (chars net3)
   \<and> predict net3 CHR ''z'' (Some 0) (Some 1) rng0 = Inl ''KeyError''
   \<and> CHR ''a'' \<in> set (chars net3)
   \<and> predict net3 CHR ''a'' None (Some 1) rng0 = Inl ''TypeError''"
proof -
  have a: "char2int (chars net3) CHR ''a'' = Some 0"
    by (simp add: eval_defs)
  have b: "forward net3 (one_hot_input net3 0) 0 = ([1/6, 1/2, 1/3], 1)"
    by (simp add: net3_def)
  have c: "[1/6, 1/2, 1/3 :: rat] \<noteq> []" by simp
  have d: "CHR ''z'' \<notin> set (chars net3)" "CHR ''a'' \<in> set (chars net3)"
    by (simp_all add: net3_def)
  from top_k_one_fails [of net3 "CHR ''a''" "Some 0" rng0] a b c
  have "\<exists>e. (e = ''ValueError'' \<or> e = ''TypeError'')
     \<and> predict net3 CHR ''a'' (Some 0) (Some 1) rng0 = Inl e" by blast
  moreover have "predict net3 CHR ''a'' (Some 0) (Some 1) rng0 = Inl ''TypeError''"
    by (simp add: eval_defs)
  moreover from top_k_one_fails [of net3 "CHR ''z''" "Some 0" rng0] d
  have "predict net3 CHR ''z'' (Some 0) (Some 1) rng0 = Inl ''KeyError''" by blast
  moreover from top_k_one_fails [of net3 "CHR ''a''" None rng0] d
  have "predict net3 CHR ''a'' None (Some 1) rng0 = Inl ''TypeError''" by blast
  ultimately show ?thesis using a b d by simp
qed

text \<open>
  The claim as it was stated fails: \<open>predict\<close> with \<open>top_k = 1\<close> does not always fail at
  the sampling step. For a character that is not a token the error is a \<^verbatim>\<open>KeyError\<close>,
  which the random choice never raises; with the hidden state at its default
  \<^verbatim>\<open>None\<close> the error is the \<^verbatim>\<open>TypeError\<close> of the iteration over it, whatever the network
  and the random generator, which are not reached.
\<close>

theorem top_k_one_counterexample:
  "predict net3 CHR ''z'' (Some 0) (Some 1) rng0 = Inl ''KeyError''
   \<and> (\<forall>a p g. np_random_choice a p g \<noteq> Inl ''KeyError'')
   \<and> (\<forall>f g. predict (net3\<lparr>forward := f\<rparr>) CHR ''a'' None (Some 1) g = Inl ''TypeError'')"
proof -
  have "np_random_choice a p g \<noteq> Inl ''KeyError''" for a p g
    using np_random_choice_errors [of a p g "''KeyError''"] by auto
  moreover have "predict net3 CHR ''z'' (Some 0) (Some 1) rng0 = Inl ''KeyError''"
    by (simp add: predict_def char2int_None net3_def)
  moreover have "predict (net3\<lparr>forward := f\<rparr>) CHR ''a'' None (Some 1) g = Inl ''TypeError''"
    for f g by (simp add: predict_no_hidden net3_def)
  ultimately show ?thesis by blast
qed

subsection \<open>The top-k symbols\<close>

text \<open>
  C3. The claim asks that \<open>predict\<close> with \<open>1 \<le> top_k \<le> V\<close> returns one of the \<open>top_k\<close>
  most probable characters, drawn with their renormalized probabilities. For
  \<open>2 \<le> top_k \<le> V\<close> this is \<open>predict_top_k\<close> above. For \<open>top_k = 1\<close> the code returns no
  character: on the network of the examples, whose most probable token is \<open>b\<close>, the
  call with \<open>top_k = 1\<close> ends in a \<^verbatim>\<open>TypeError\<close>, where \<open>top_k = 2\<close> returns the token
  \<open>c\<close>, one of the two most probable.
\<close>

theorem predict_top_k_one_evaluated:
  "predict net3 CHR ''a'' (Some 0) (Some 1) rng0 = Inl ''TypeError''
   \<and> predict net3 CHR ''a'' (Some 0) (Some 2) rng0 = Inr (CHR ''c'', 1, \<lambda>n. rng0 (Suc n))"
  by (simp add: eval_defs)

subsection \<open>An empty prime\<close>

text \<open>
  C6 (amended). With an empty prime, \<open>sample\<close> fails with an \<^verbatim>\<open>UnboundLocalError\<close> and
  returns no text: the first loop does not run, and \<^verbatim>\<open>chars.append(char)\<close> reads a
  variable that was never assigned.
\<close>

theorem sample_empty_prime:
  "sample net size' [] top_k g = Inl ''UnboundLocalError''"
  by (simp add: sample_def)

text \<open>
  The claim as it was stated fails: the error is not \<^verbatim>\<open>EmptyPrimeError\<close>, a class the
  notebook does not have.
\<close>

theorem sample_empty_prime_counterexample:
  "sample net3 4 [] None rng0 = Inl ''UnboundLocalError''
   \<and> sample net3 4 [] None rng0 \<noteq> Inl ''EmptyPrimeError''"
  by (simp add: sample_def)

subsection \<open>The default hidden state\<close>

text \<open>
  C9 (amended). A call of \<open>predict\<close> with the hidden state left at its default \<^verbatim>\<open>None\<close>
  always fails before the network is called: with a \<^verbatim>\<open>TypeError\<close> when the character is
  a token of the network, and with the \<^verbatim>\<open>KeyError\<close> of the lookup, which comes first,
  when it is not. The result does not depend on the network's \<open>forward\<close>.
\<close>

theorem predict_default_hidden_fails:
  "predict net char None top_k g
     = Inl (if char \<in> set (chars net) then ''TypeError'' else ''KeyError'')
   \<and> predict (net\<lparr>forward := f\<rparr>) char None top_k g = predict net char None top_k g"
  by (simp add: predict_no_hidden)

text \<open>
  The claim as it was stated fails: for a character that is not a token the error is a
  \<^verbatim>\<open>KeyError\<close>, not a \<^verbatim>\<open>TypeError\<close>.
\<close>

theorem predict_default_hidden_counterexample:
  "predict net3 CHR ''z'' None None rng0 = Inl ''KeyError''
   \<and> predict net3 CHR ''z'' None None rng0 \<noteq> Inl ''TypeError''"
  by (simp add: predict_no_hidden net3_def)

end
